theory Spec2Isabelle
  imports Main
begin

section \<open>The browser-verification scripts of webadmin\<close>

text \<open>
  The repository holds three Python scripts (\<^verbatim>\<open>verify_lazy_loading.py\<close>,
  \<^verbatim>\<open>verify_mobile_products.py\<close>, \<^verbatim>\<open>verify_mobile_home.py\<close>). Each one is a single
  coroutine \<^verbatim>\<open>main\<close> of the shape
  \<^verbatim>\<open>
  async with async_playwright() as p:
      browser = await p.chromium.launch(headless=True)
      ... page = await ....new_page()
      try:
          <awaited library calls and prints>
      except Exception as e:
          print(f"... An error occurred: {e}")
          await page.screenshot(path=<error path>)
      finally:
          await browser.close()
  \<close>
  The automation library is external, and so is the standard output the scripts print
  to. Every awaited call, and every \<^verbatim>\<open>print\<close>, either returns or raises, so the
  environment is a parameter of the model: a function from the history of the run and the
  call to the exception raised, if any. The run is explicit state passing over the trace
  of events (calls with their outcome, printed lines, prints that raised).
\<close>

subsection \<open>Exceptions\<close>

text \<open>
  The classes an awaited call may raise. The first three are the error kinds of the
  specification; \<open>UnicodeEncodeError\<close> is what \<^verbatim>\<open>print\<close> raises on a standard output
  that cannot encode a character; \<open>OtherException\<close> stands for any other class derived
  from Python's \<^verbatim>\<open>Exception\<close>; \<open>KeyboardInterrupt\<close> and \<open>CancelledError\<close> derive from
  \<^verbatim>\<open>BaseException\<close> only, so \<^verbatim>\<open>except Exception\<close> does not catch them.
\<close>

datatype exn_class =
    NavigationError
  | AssertionError
  | ElementNotFoundError
  | UnicodeEncodeError
  | OtherException
  | KeyboardInterrupt
  | CancelledError

datatype exn = Exn (cls: exn_class) (message: string)

fun derives_Exception :: "exn_class \<Rightarrow> bool" where
  "derives_Exception NavigationError = True"
| "derives_Exception AssertionError = True"
| "derives_Exception ElementNotFoundError = True"
| "derives_Exception UnicodeEncodeError = True"
| "derives_Exception OtherException = True"
| "derives_Exception KeyboardInterrupt = False"
| "derives_Exception CancelledError = False"

text \<open>\<^verbatim>\<open>except Exception as e\<close>: the clause matches instances of \<^verbatim>\<open>Exception\<close>.\<close>

definition except_Exception :: "exn \<Rightarrow> bool" where
  "except_Exception e = derives_Exception (cls e)"

subsection \<open>Library calls, events and statements\<close>

text \<open>
  \<^verbatim>\<open>get_by_role(role, name=..., exact=...)\<close>; a locator is the chain of such queries
  starting at the page, outermost first. The calls are those the scripts make of the
  library, and \<open>StdoutWrite\<close>, the write of a line to standard output that
  \<^verbatim>\<open>print\<close> makes.
\<close>

datatype role_query = GetByRole (role: string) (name: "string option") (exact: bool)

type_synonym locator = "role_query list"

datatype call =
    PlaywrightStart
  | PlaywrightStop
  | Launch bool
  | NewContext nat nat bool string
  | BrowserNewPage
  | ContextNewPage
  | Goto string nat
  | ToBeVisible locator "nat option"
  | Click locator
  | Screenshot string
  | BrowserClose
  | StdoutWrite string

text \<open>
  An event is a call with its outcome, a line that \<^verbatim>\<open>print\<close> has written, or a
  \<^verbatim>\<open>print\<close> of a line that raised.
\<close>

datatype event = Called call "exn option" | Printed string | PrintRaised string exn

type_synonym trace = "event list"

type_synonym environment = "trace \<Rightarrow> call \<Rightarrow> exn option"

datatype stmt = Await call | Print string

text \<open>
  A block of statements runs in order from the trace so far. A call or a \<^verbatim>\<open>print\<close>
  that raises ends the block at once with that exception; the result \<open>None\<close> is normal
  completion.
\<close>

fun exec :: "environment \<Rightarrow> stmt list \<Rightarrow> trace \<Rightarrow> exn option \<times> trace" where
  "exec L [] tr = (None, tr)"
| "exec L (Print s # ss) tr =
     (case L tr (StdoutWrite s) of
        None \<Rightarrow> exec L ss (tr @ [Printed s])
      | Some e \<Rightarrow> (Some e, tr @ [PrintRaised s e]))"
| "exec L (Await c # ss) tr =
     (case L tr c of
        None \<Rightarrow> exec L ss (tr @ [Called c None])
      | Some e \<Rightarrow> (Some e, tr @ [Called c (Some e)]))"

text \<open>
  \<^verbatim>\<open>try: body  except Exception as e: handler(e)  finally: fin\<close>.
  The handler runs when the body raised an instance of \<^verbatim>\<open>Exception\<close>; any other
  exception stays pending. The \<^verbatim>\<open>finally\<close> block runs on every path; an exception
  raised in it replaces the pending one.
\<close>

definition try_except_finally ::
  "environment \<Rightarrow> stmt list \<Rightarrow> (exn \<Rightarrow> stmt list) \<Rightarrow> stmt list \<Rightarrow> trace \<Rightarrow> exn option \<times> trace" where
  "try_except_finally L body handler fin tr =
     (let (r1, tr1) = exec L body tr;
          (r2, tr2) = (case r1 of
                         None \<Rightarrow> (None, tr1)
                       | Some e \<Rightarrow> if except_Exception e then exec L (handler e) tr1
                                   else (Some e, tr1));
          (r3, tr3) = exec L fin tr2
      in (case r3 of Some e3 \<Rightarrow> Some e3 | None \<Rightarrow> r2, tr3))"

subsection \<open>The three scripts\<close>

record script =
  preamble :: "stmt list"
  body :: "stmt list"
  error_path :: string

definition check_mark :: string where
  "check_mark = [CHR 0xE2, CHR 0x9C, CHR 0x85]"

definition camera :: string where
  "camera = [CHR 0xF0, CHR 0x9F, CHR 0x93, CHR 0xB8]"

definition cross_mark :: string where
  "cross_mark = [CHR 0xE2, CHR 0x9D, CHR 0x8C]"

definition heading :: "string \<Rightarrow> locator" where
  "heading n = [GetByRole ''heading'' (Some n) False]"

definition heading_exact :: "string \<Rightarrow> locator" where
  "heading_exact n = [GetByRole ''heading'' (Some n) True]"

definition iphone_x_context :: call where
  "iphone_x_context = NewContext 375 812 True
     ''Mozilla/5.0 (iPhone; CPU iPhone OS 13_5 like Mac OS X) AppleWebKit/605.1.15 (KHTML, like Gecko) Version/13.1.1 Mobile/15E148 Safari/604.1''"

definition verify_lazy_loading :: script where
  "verify_lazy_loading = \<lparr>
     preamble = [Await (Launch True), Await BrowserNewPage],
     body =
       [Await (Goto ''http://localhost:5173/'' 60000),
        Await (ToBeVisible (heading ''Capture Every Moment'') None),
        Print (check_mark @ '' Home page loaded successfully.''),
        Await (Click [GetByRole ''navigation'' None False, GetByRole ''link'' (Some ''Products'') False]),
        Await (ToBeVisible (heading_exact ''Products'') None),
        Print (check_mark @ '' Products page loaded successfully.''),
        Await (Click [GetByRole ''link'' (Some ''Sign in'') False]),
        Await (ToBeVisible (heading ''Sign In'') None),
        Print (check_mark @ '' Login page loaded successfully.''),
        Await (Goto ''http://localhost:5173/admin/login'' 60000),
        Await (ToBeVisible (heading ''Admin Login'') None),
        Print (check_mark @ '' Admin login page loaded successfully.''),
        Await (Screenshot ''jules-scratch/verification/lazy_loading_success.png''),
        Print (camera @ '' Screenshot taken. Verification successful!'')],
     error_path = ''jules-scratch/verification/lazy_loading_error.png'' \<rparr>"

definition verify_mobile_products :: script where
  "verify_mobile_products = \<lparr>
     preamble = [Await (Launch True), Await iphone_x_context, Await ContextNewPage],
     body =
       [Await (Goto ''http://localhost:5174/products'' 60000),
        Await (ToBeVisible (heading_exact ''Products'') (Some 30000)),
        Print (check_mark @ '' Products page loaded successfully.''),
        Await (Screenshot ''jules-scratch/verification/mobile_products_before.png''),
        Print (''Screenshot saved to '' @ ''jules-scratch/verification/mobile_products_before.png'')],
     error_path = ''jules-scratch/verification/mobile_products_error.png'' \<rparr>"

definition verify_mobile_home :: script where
  "verify_mobile_home = \<lparr>
     preamble = [Await (Launch True), Await iphone_x_context, Await ContextNewPage],
     body =
       [Await (Goto ''http://localhost:5173/'' 60000),
        Await (ToBeVisible (heading ''Capture Every Moment'') (Some 30000)),
        Print (check_mark @ '' Home page loaded successfully.''),
        Await (Screenshot ''jules-scratch/phase2_verification/mobile_home_analysis.png''),
        Print (''Screenshot saved to '' @ ''jules-scratch/phase2_verification/mobile_home_analysis.png'')],
     error_path = ''jules-scratch/phase2_verification/mobile_home_error.png'' \<rparr>"

definition scripts :: "script list" where
  "scripts = [verify_lazy_loading, verify_mobile_products, verify_mobile_home]"

text \<open>The \<^verbatim>\<open>except\<close> clause and the \<^verbatim>\<open>finally\<close> clause, the same in every script.\<close>

definition error_line :: "exn \<Rightarrow> string" where
  "error_line e = cross_mark @ '' An error occurred: '' @ message e"

definition handler :: "script \<Rightarrow> exn \<Rightarrow> stmt list" where
  "handler sc e = [Print (error_line e), Await (Screenshot (error_path sc))]"

definition finally_block :: "stmt list" where
  "finally_block = [Await BrowserClose]"

text \<open>The \<^verbatim>\<open>try\<close> statement of a script, entered with the trace of the setup.\<close>

definition run :: "script \<Rightarrow> environment \<Rightarrow> trace \<Rightarrow> exn option \<times> trace" where
  "run sc L tr = try_except_finally L (body sc) (handler sc) finally_block tr"

text \<open>
  \<^verbatim>\<open>main\<close>: the \<^verbatim>\<open>async with\<close> block starts the library, runs the setup and the
  \<^verbatim>\<open>try\<close> statement, and stops the library on every path out of the block. A failing
  start skips the block; an exception of the stop replaces a pending one.
\<close>

definition main :: "script \<Rightarrow> environment \<Rightarrow> exn option \<times> trace" where
  "main sc L =
     (case L [] PlaywrightStart of
        Some e \<Rightarrow> (Some e, [Called PlaywrightStart (Some e)])
      | None \<Rightarrow>
          (let (r0, tr0) = exec L (preamble sc) [Called PlaywrightStart None];
               (r1, tr1) = (case r0 of Some e \<Rightarrow> (Some e, tr0) | None \<Rightarrow> run sc L tr0);
               (r2, tr2) = exec L [Await PlaywrightStop] tr1
           in (case r2 of Some e2 \<Rightarrow> Some e2 | None \<Rightarrow> r1, tr2)))"

text \<open>
  \<^verbatim>\<open>asyncio.run(main())\<close> at the end of each script: the interpreter ends with status
  0 when \<^verbatim>\<open>main\<close> returns; an exception leaving \<^verbatim>\<open>main\<close> is uncaught and ends the
  process with a traceback and a non-zero status (1, and 130 for a keyboard interrupt).
  No script calls \<^verbatim>\<open>sys.exit\<close>.
\<close>

fun exit_status :: "exn option \<Rightarrow> nat" where
  "exit_status None = 0"
| "exit_status (Some e) = (if cls e = KeyboardInterrupt then 130 else 1)"

subsection \<open>Observations on a trace\<close>

fun stmt_of :: "event \<Rightarrow> stmt" where
  "stmt_of (Called c r) = Await c"
| "stmt_of (Printed s) = Print s"
| "stmt_of (PrintRaised s e) = Print s"

fun failed :: "event \<Rightarrow> bool" where
  "failed (Called c (Some e)) = True"
| "failed (Called c None) = False"
| "failed (Printed s) = False"
| "failed (PrintRaised s e) = True"

fun raised :: "event \<Rightarrow> exn option" where
  "raised (Called c r) = r"
| "raised (Printed s) = None"
| "raised (PrintRaised s e) = Some e"

fun is_close :: "event \<Rightarrow> bool" where
  "is_close (Called BrowserClose r) = True"
| "is_close ev = False"

definition close_calls :: "trace \<Rightarrow> nat" where
  "close_calls tr = length (filter is_close tr)"

text \<open>A screenshot call that returns has written its file; one that raises has not.\<close>

fun files_written :: "trace \<Rightarrow> string list" where
  "files_written [] = []"
| "files_written (Called (Screenshot p) None # tr) = p # files_written tr"
| "files_written (ev # tr) = files_written tr"

fun printed :: "trace \<Rightarrow> string list" where
  "printed [] = []"
| "printed (Printed s # tr) = s # printed tr"
| "printed (ev # tr) = printed tr"

text \<open>The paths of the screenshots a block declares, and the URLs it navigates to.\<close>

fun screenshot_paths :: "stmt list \<Rightarrow> string list" where
  "screenshot_paths [] = []"
| "screenshot_paths (Await (Screenshot p) # ss) = p # screenshot_paths ss"
| "screenshot_paths (s # ss) = screenshot_paths ss"

fun goto_urls :: "stmt list \<Rightarrow> string list" where
  "goto_urls [] = []"
| "goto_urls (Await (Goto u t) # ss) = u # goto_urls ss"
| "goto_urls (s # ss) = goto_urls ss"

fun visibility_timeouts :: "stmt list \<Rightarrow> nat option list" where
  "visibility_timeouts [] = []"
| "visibility_timeouts (Await (ToBeVisible q t) # ss) = t # visibility_timeouts ss"
| "visibility_timeouts (s # ss) = visibility_timeouts ss"

text \<open>
  The run is in the running state once the library has started and the preamble
  (launch, context, page) has returned: the \<^verbatim>\<open>try\<close> statement is entered.
\<close>

definition reaches_try :: "script \<Rightarrow> environment \<Rightarrow> bool" where
  "reaches_try sc L \<longleftrightarrow>
     L [] PlaywrightStart = None \<and> fst (exec L (preamble sc) [Called PlaywrightStart None]) = None"

definition entry_trace :: "script \<Rightarrow> environment \<Rightarrow> trace" where
  "entry_trace sc L = snd (exec L (preamble sc) [Called PlaywrightStart None])"

subsection \<open>The automation library as the specification describes it\<close>

text \<open>
  Modelled from the spec: the application under test, which is not part of the repository
  (sections 4.1 and 6 of the specification), as far as a call can observe it: whether the
  page at a URL settles within a number of milliseconds, whether an element matching a
  locator becomes visible within a number of milliseconds, whether a matching element is
  present, the timeout the library uses when a call names none, and the text of the error
  a failing call carries. All may depend on the history of the run.
\<close>

record world =
  settles_within :: "trace \<Rightarrow> string \<Rightarrow> nat \<Rightarrow> bool"
  visible_within :: "trace \<Rightarrow> locator \<Rightarrow> nat \<Rightarrow> bool"
  present :: "trace \<Rightarrow> locator \<Rightarrow> bool"
  default_timeout :: nat
  error_text :: "trace \<Rightarrow> call \<Rightarrow> string"

text \<open>
  Modelled from the spec: the timeout in effect for a call of the external library, the
  one the call names or else the default of the library, taken as a parameter.
\<close>

definition effective_timeout :: "nat \<Rightarrow> nat option \<Rightarrow> nat" where
  "effective_timeout dflt t = (case t of None \<Rightarrow> dflt | Some ms \<Rightarrow> ms)"

text \<open>
  Modelled from the spec: the operations of the external automation library, which is
  not part of the repository (section 4.1 and 7 of the specification).
  \<^item> \<open>navigate(url, timeout)\<close> fails with \<open>NavigationError\<close> if the page does not settle
    within the timeout;
  \<^item> \<open>wait_for_visible(query, timeout)\<close> fails with \<open>AssertionError\<close> if no matching
    element is visible within the timeout;
  \<^item> \<open>click(query)\<close> fails with \<open>ElementNotFoundError\<close> if no matching element is present;
  \<^item> the specification names no failure of any other call (start, launch, page creation,
    screenshot, close, stop) nor of printing, so those return.
\<close>

definition spec_library :: "world \<Rightarrow> environment" where
  "spec_library w h c =
     (case c of
        Goto u t \<Rightarrow>
          if settles_within w h u t then None
          else Some (Exn NavigationError (error_text w h c))
      | ToBeVisible q t \<Rightarrow>
          if visible_within w h q (effective_timeout (default_timeout w) t) then None
          else Some (Exn AssertionError (error_text w h c))
      | Click q \<Rightarrow>
          if present w h q then None
          else Some (Exn ElementNotFoundError (error_text w h c))
      | _ \<Rightarrow> None)"

text \<open>
  A step of the \<^verbatim>\<open>try\<close> body raised an exception that the \<^verbatim>\<open>except\<close> clause
  catches: the trace holds a call or a print of the body whose outcome is an instance of
  \<^verbatim>\<open>Exception\<close>.
\<close>

definition step_error_caught :: "script \<Rightarrow> trace \<Rightarrow> bool" where
  "step_error_caught sc tr \<longleftrightarrow>
     (\<exists>ev\<in>set tr. stmt_of ev \<in> set (body sc)
        \<and> (case raised ev of Some e \<Rightarrow> except_Exception e | None \<Rightarrow> False))"

subsection \<open>Some environments\<close>

text \<open>The application is up and every element the scripts ask for is there.\<close>

definition app_up :: world where
  "app_up = \<lparr>
     settles_within = (\<lambda>h u t. True),
     visible_within = (\<lambda>h q t. True),
     present = (\<lambda>h q. True),
     default_timeout = 5000,
     error_text = (\<lambda>h c. []) \<rparr>"


text \<open>Pages load, but they are blank: no heading becomes visible, no link is present.\<close>

definition blank_page :: world where
  "blank_page = \<lparr>
     settles_within = (\<lambda>h u t. True),
     visible_within = (\<lambda>h q t. False),
     present = (\<lambda>h q. False),
     default_timeout = 5000,
     error_text = (\<lambda>h c. ''element(s) not found'') \<rparr>"

text \<open>The application is up, but its navigation bar has no link named Products.\<close>

definition no_products_link :: world where
  "no_products_link = \<lparr>
     settles_within = (\<lambda>h u t. True),
     visible_within = (\<lambda>h q t. True),
     present = (\<lambda>h q. q \<noteq> [GetByRole ''navigation'' None False,
                                 GetByRole ''link'' (Some ''Products'') False]),
     default_timeout = 5000,
     error_text = (\<lambda>h c. ''element(s) not found'') \<rparr>"

text \<open>
  The page crashes while it loads: the navigation raises, and so does every later
  screenshot of the page; the browser itself still closes.
\<close>

definition crashed_page :: environment where
  "crashed_page h c =
     (case c of
        Goto u t \<Rightarrow> Some (Exn NavigationError ''Page crashed'')
      | Screenshot p \<Rightarrow> Some (Exn OtherException ''Target page, context or browser has been closed'')
      | _ \<Rightarrow> None)"

text \<open>
  The application answers, but slowly: an element becomes visible ten seconds after it is
  asked for.
\<close>

definition slow_app :: world where
  "slow_app = \<lparr>
     settles_within = (\<lambda>h u t. True),
     visible_within = (\<lambda>h q t. 10000 \<le> t),
     present = (\<lambda>h q. True),
     default_timeout = 5000,
     error_text = (\<lambda>h c. ''Locator expected to be visible'') \<rparr>"




text \<open>
  The application is up and every element is there, but the disk is full: no screenshot
  can be written.
\<close>

definition full_disk :: environment where
  "full_disk h c =
     (case c of
        Screenshot p \<Rightarrow> Some (Exn OtherException ''No space left on device'')
      | _ \<Rightarrow> None)"

subsection \<open>Further observations\<close>

text \<open>
  The calls that ask something of the application under test: a navigation, a visibility
  assertion, a click.
\<close>

fun app_event :: "event \<Rightarrow> bool" where
  "app_event (Called (Goto u t) r) = True"
| "app_event (Called (ToBeVisible q t) r) = True"
| "app_event (Called (Click q) r) = True"
| "app_event ev = False"


text \<open>The event of a statement that completes.\<close>

fun ok_event :: "stmt \<Rightarrow> event" where
  "ok_event (Await c) = Called c None"
| "ok_event (Print s) = Printed s"

text \<open>The URLs of the navigations a trace holds, whatever their outcome.\<close>

fun navigations :: "trace \<Rightarrow> string list" where
  "navigations [] = []"
| "navigations (Called (Goto u t) r # tr) = u # navigations tr"
| "navigations (ev # tr) = navigations tr"

text \<open>The port of an \<^verbatim>\<open>http://host:port/path\<close> URL.\<close>

definition url_port :: "string \<Rightarrow> string" where
  "url_port u =
     takeWhile (\<lambda>c. c \<noteq> CHR ''/'') (drop 1 (dropWhile (\<lambda>c. c \<noteq> CHR '':'') (drop 7 u)))"

section \<open>Properties\<close>

subsection \<open>Blocks, the try statement and main\<close>

lemma exec_single: "exec L [Await c] tr = (L tr c, tr @ [Called c (L tr c)])"
  by (cases "L tr c") simp_all

lemma raised_failed: "raised ev = Some e \<Longrightarrow> failed ev"
  by (cases ev) auto

lemma failed_raised: "failed ev \<Longrightarrow> \<exists>e. raised ev = Some e"
  by (cases ev rule: failed.cases) auto

lemma exec_shape:
  "exec L ss tr = (r, tr') \<Longrightarrow>
     \<exists>evs. tr' = tr @ evs \<and> map stmt_of evs = take (length evs) ss \<and> length evs \<le> length ss
       \<and> (\<forall>ev\<in>set (butlast evs). \<not> failed ev)
       \<and> (r = None \<longrightarrow> length evs = length ss \<and> (\<forall>ev\<in>set evs. \<not> failed ev))
       \<and> (\<forall>e. r = Some e \<longrightarrow> evs \<noteq> [] \<and> raised (last evs) = Some e)"
proof (induction L ss tr rule: exec.induct)
  case (1 L tr)
  then show ?case by simp
next
  case (2 L s ss tr)
  show ?case
  proof (cases "L tr (StdoutWrite s)")
    case None
    with 2 obtain evs where evs: "tr' = (tr @ [Printed s]) @ evs"
        "map stmt_of evs = take (length evs) ss" "length evs \<le> length ss"
        "\<forall>ev\<in>set (butlast evs). \<not> failed ev"
        "r = None \<longrightarrow> length evs = length ss \<and> (\<forall>ev\<in>set evs. \<not> failed ev)"
        "\<forall>e. r = Some e \<longrightarrow> evs \<noteq> [] \<and> raised (last evs) = Some e"
      by auto
    show ?thesis
    proof (intro exI [of _ "Printed s # evs"] conjI)
      show "tr' = tr @ Printed s # evs" using evs(1) by simp
      show "map stmt_of (Printed s # evs) = take (length (Printed s # evs)) (Print s # ss)"
        using evs(2) by simp
      show "length (Printed s # evs) \<le> length (Print s # ss)" using evs(3) by simp
      show "\<forall>ev\<in>set (butlast (Printed s # evs)). \<not> failed ev"
        using evs(4) by (cases evs) auto
      show "r = None \<longrightarrow> length (Printed s # evs) = length (Print s # ss)
          \<and> (\<forall>ev\<in>set (Printed s # evs). \<not> failed ev)"
        using evs(5) by simp
      show "\<forall>e. r = Some e \<longrightarrow> Printed s # evs \<noteq> [] \<and> raised (last (Printed s # evs)) = Some e"
        using evs(6) by auto
    qed
  next
    case (Some e)
    with "2.prems" have "r = Some e" "tr' = tr @ [PrintRaised s e]" by auto
    then show ?thesis
      by (intro exI [of _ "[PrintRaised s e]"]) simp
  qed
next
  case (3 L c ss tr)
  show ?case
  proof (cases "L tr c")
    case None
    with 3 obtain evs where evs: "tr' = (tr @ [Called c None]) @ evs"
        "map stmt_of evs = take (length evs) ss" "length evs \<le> length ss"
        "\<forall>ev\<in>set (butlast evs). \<not> failed ev"
        "r = None \<longrightarrow> length evs = length ss \<and> (\<forall>ev\<in>set evs. \<not> failed ev)"
        "\<forall>e. r = Some e \<longrightarrow> evs \<noteq> [] \<and> raised (last evs) = Some e"
      by auto
    show ?thesis
    proof (intro exI [of _ "Called c None # evs"] conjI)
      show "tr' = tr @ Called c None # evs" using evs(1) by simp
      show "map stmt_of (Called c None # evs) = take (length (Called c None # evs)) (Await c # ss)"
        using evs(2) by simp
      show "length (Called c None # evs) \<le> length (Await c # ss)" using evs(3) by simp
      show "\<forall>ev\<in>set (butlast (Called c None # evs)). \<not> failed ev"
        using evs(4) by (cases evs) auto
      show "r = None \<longrightarrow> length (Called c None # evs) = length (Await c # ss)
          \<and> (\<forall>ev\<in>set (Called c None # evs). \<not> failed ev)"
        using evs(5) by simp
      show "\<forall>e. r = Some e \<longrightarrow> Called c None # evs \<noteq> []
          \<and> raised (last (Called c None # evs)) = Some e"
        using evs(6) by auto
    qed
  next
    case (Some e)
    with "3.prems" have "r = Some e" "tr' = tr @ [Called c (Some e)]" by auto
    then show ?thesis
      by (intro exI [of _ "[Called c (Some e)]"]) simp
  qed
qed

lemma exec_handler:
  "L tr (StdoutWrite (error_line e)) = None \<Longrightarrow>
   exec L (handler sc e) tr =
     (L (tr @ [Printed (error_line e)]) (Screenshot (error_path sc)),
      tr @ [Printed (error_line e),
            Called (Screenshot (error_path sc))
              (L (tr @ [Printed (error_line e)]) (Screenshot (error_path sc)))])"
  by (simp add: handler_def split: option.split)

lemma exec_handler_print_raised:
  "L tr (StdoutWrite (error_line e)) = Some e1 \<Longrightarrow>
   exec L (handler sc e) tr = (Some e1, tr @ [PrintRaised (error_line e) e1])"
  by (simp add: handler_def)

lemma exec_finally:
  "exec L finally_block tr = (L tr BrowserClose, tr @ [Called BrowserClose (L tr BrowserClose)])"
  by (simp add: finally_block_def split: option.split)

lemma run_returned:
  "exec L (body sc) tr = (None, tr1) \<Longrightarrow>
     run sc L tr = (L tr1 BrowserClose, tr1 @ [Called BrowserClose (L tr1 BrowserClose)])"
  by (simp add: run_def try_except_finally_def exec_finally split: option.split)

lemma run_caught:
  "exec L (body sc) tr = (Some e, tr1) \<Longrightarrow> except_Exception e \<Longrightarrow>
   L tr1 (StdoutWrite (error_line e)) = None \<Longrightarrow>
     run sc L tr =
       (let tr2 = tr1 @ [Printed (error_line e)];
            rh = L tr2 (Screenshot (error_path sc));
            tr3 = tr2 @ [Called (Screenshot (error_path sc)) rh];
            rc = L tr3 BrowserClose
        in (case rc of Some e3 \<Rightarrow> Some e3 | None \<Rightarrow> rh, tr3 @ [Called BrowserClose rc]))"
  by (simp add: run_def try_except_finally_def exec_finally exec_handler Let_def split: option.split)

lemma run_caught_print_raised:
  "exec L (body sc) tr = (Some e, tr1) \<Longrightarrow> except_Exception e \<Longrightarrow>
   L tr1 (StdoutWrite (error_line e)) = Some e1 \<Longrightarrow>
     run sc L tr =
       (let tr2 = tr1 @ [PrintRaised (error_line e) e1];
            rc = L tr2 BrowserClose
        in (case rc of Some e3 \<Rightarrow> Some e3 | None \<Rightarrow> Some e1, tr2 @ [Called BrowserClose rc]))"
  by (simp add: run_def try_except_finally_def exec_finally exec_handler_print_raised Let_def
      split: option.split)

lemma run_uncaught:
  "exec L (body sc) tr = (Some e, tr1) \<Longrightarrow> \<not> except_Exception e \<Longrightarrow>
     run sc L tr =
       (case L tr1 BrowserClose of Some e3 \<Rightarrow> Some e3 | None \<Rightarrow> Some e,
        tr1 @ [Called BrowserClose (L tr1 BrowserClose)])"
  by (simp add: run_def try_except_finally_def exec_finally split: option.split)

lemma main_running:
  "reaches_try sc L \<Longrightarrow>
     main sc L =
       (let (r1, tr1) = run sc L (entry_trace sc L);
            rs = L tr1 PlaywrightStop
        in (case rs of Some e2 \<Rightarrow> Some e2 | None \<Rightarrow> r1, tr1 @ [Called PlaywrightStop rs]))"
  by (cases "exec L (preamble sc) [Called PlaywrightStart None]")
     (simp add: main_def reaches_try_def entry_trace_def exec_single Let_def
        split: option.split prod.split)


subsection \<open>Case analysis of a run\<close>

lemma run_cases [case_names returned caught uncaught print_raised]:
  obtains
    (returned) tr1 rc where "exec L (body sc) tr = (None, tr1)"
      "rc = L tr1 BrowserClose"
      "run sc L tr = (rc, tr1 @ [Called BrowserClose rc])"
  | (caught) e tr1 rh rc where "exec L (body sc) tr = (Some e, tr1)" "except_Exception e"
      "rh = L (tr1 @ [Printed (error_line e)]) (Screenshot (error_path sc))"
      "rc = L (tr1 @ [Printed (error_line e), Called (Screenshot (error_path sc)) rh]) BrowserClose"
      "run sc L tr = (case rc of Some e3 \<Rightarrow> Some e3 | None \<Rightarrow> rh,
         tr1 @ [Printed (error_line e), Called (Screenshot (error_path sc)) rh, Called BrowserClose rc])"
      "L tr1 (StdoutWrite (error_line e)) = None"
  | (uncaught) e tr1 rc where "exec L (body sc) tr = (Some e, tr1)" "\<not> except_Exception e"
      "rc = L tr1 BrowserClose"
      "run sc L tr = (case rc of Some e3 \<Rightarrow> Some e3 | None \<Rightarrow> Some e, tr1 @ [Called BrowserClose rc])"
  | (print_raised) e tr1 e1 rc where "exec L (body sc) tr = (Some e, tr1)" "except_Exception e"
      "L tr1 (StdoutWrite (error_line e)) = Some e1"
      "rc = L (tr1 @ [PrintRaised (error_line e) e1]) BrowserClose"
      "run sc L tr = (case rc of Some e3 \<Rightarrow> Some e3 | None \<Rightarrow> Some e1,
         tr1 @ [PrintRaised (error_line e) e1, Called BrowserClose rc])"
proof -
  obtain r1 tr1 where ex: "exec L (body sc) tr = (r1, tr1)"
    by (cases "exec L (body sc) tr")
  show thesis
  proof (cases r1)
    case None
    with ex show thesis by (intro returned [of tr1]) (simp_all add: run_returned)
  next
    case (Some e)
    show thesis
    proof (cases "except_Exception e")
      case True
      show thesis
      proof (cases "L tr1 (StdoutWrite (error_line e))")
        case None
        with ex Some True show thesis
          by (intro caught [of e tr1]) (simp_all add: run_caught Let_def)
      next
        case (Some e1)
        with ex \<open>r1 = Some e\<close> True show thesis
          by (intro print_raised [of e tr1 e1]) (simp_all add: run_caught_print_raised Let_def)
      qed
    next
      case False
      with ex Some show thesis
        by (intro uncaught [of e tr1]) (simp_all add: run_uncaught)
    qed
  qed
qed

lemma main_start_failed:
  "L [] PlaywrightStart = Some e \<Longrightarrow> main sc L = (Some e, [Called PlaywrightStart (Some e)])"
  by (simp add: main_def)

lemma main_preamble_failed:
  "L [] PlaywrightStart = None \<Longrightarrow> exec L (preamble sc) [Called PlaywrightStart None] = (Some e, tr0) \<Longrightarrow>
     main sc L =
       (case L tr0 PlaywrightStop of Some e2 \<Rightarrow> Some e2 | None \<Rightarrow> Some e,
        tr0 @ [Called PlaywrightStop (L tr0 PlaywrightStop)])"
  by (simp add: main_def exec_single split: option.split)

lemma main_cases [case_names start_failed preamble_failed running]:
  obtains
    (start_failed) e where "L [] PlaywrightStart = Some e" "\<not> reaches_try sc L"
      "main sc L = (Some e, [Called PlaywrightStart (Some e)])"
  | (preamble_failed) e tr0 rs where "L [] PlaywrightStart = None" "\<not> reaches_try sc L"
      "exec L (preamble sc) [Called PlaywrightStart None] = (Some e, tr0)"
      "rs = L tr0 PlaywrightStop"
      "main sc L = (case rs of Some e2 \<Rightarrow> Some e2 | None \<Rightarrow> Some e, tr0 @ [Called PlaywrightStop rs])"
  | (running) r1 tr1 rs where "reaches_try sc L"
      "exec L (preamble sc) [Called PlaywrightStart None] = (None, entry_trace sc L)"
      "run sc L (entry_trace sc L) = (r1, tr1)"
      "rs = L tr1 PlaywrightStop"
      "main sc L = (case rs of Some e2 \<Rightarrow> Some e2 | None \<Rightarrow> r1, tr1 @ [Called PlaywrightStop rs])"
proof (cases "L [] PlaywrightStart")
  case (Some e)
  then show thesis
    by (intro start_failed [of e]) (simp_all add: main_start_failed reaches_try_def)
next
  case None
  obtain r0 tr0 where pre: "exec L (preamble sc) [Called PlaywrightStart None] = (r0, tr0)"
    by (cases "exec L (preamble sc) [Called PlaywrightStart None]")
  show thesis
  proof (cases r0)
    case (Some e)
    with None pre show thesis
      by (intro preamble_failed [of e tr0]) (simp_all add: main_preamble_failed reaches_try_def)
  next
    case r0: None
    with None pre have rt: "reaches_try sc L" and et: "entry_trace sc L = tr0"
      by (simp_all add: reaches_try_def entry_trace_def)
    obtain r1 tr1 where rn: "run sc L (entry_trace sc L) = (r1, tr1)"
      by (cases "run sc L (entry_trace sc L)")
    from rt rn pre r0 et show thesis
      by (intro running [of r1 tr1]) (simp_all add: main_running Let_def)
  qed
qed

lemma exec_events:
  assumes "exec L ss tr = (r, tr')" "ev \<in> set tr'"
  shows "ev \<in> set tr \<or> stmt_of ev \<in> set ss"
proof -
  from exec_shape [OF assms(1)] obtain evs where
    evs: "tr' = tr @ evs" "map stmt_of evs = take (length evs) ss" by blast
  show ?thesis
  proof (cases "ev \<in> set tr")
    case True
    then show ?thesis by simp
  next
    case False
    with assms(2) evs(1) have "ev \<in> set evs" by simp
    then have "stmt_of ev \<in> set (map stmt_of evs)" by simp
    with evs(2) have "stmt_of ev \<in> set (take (length evs) ss)" by simp
    then show ?thesis by (blast dest: in_set_takeD)
  qed
qed

lemma exec_failed_event:
  assumes "exec L ss tr = (r, tr')" "ev \<in> set tr'" "raised ev = Some e"
  shows "ev \<in> set tr \<or> (r = Some e \<and> ev = last tr')"
proof -
  from exec_shape [OF assms(1)] obtain evs where
    evs: "tr' = tr @ evs" "\<forall>ev\<in>set (butlast evs). \<not> failed ev"
      "r = None \<longrightarrow> (\<forall>ev\<in>set evs. \<not> failed ev)"
      "\<forall>e. r = Some e \<longrightarrow> evs \<noteq> [] \<and> raised (last evs) = Some e" by blast
  from assms(3) have f: "failed ev" by (rule raised_failed)
  show ?thesis
  proof (cases "ev \<in> set tr")
    case True
    then show ?thesis by simp
  next
    case False
    with assms(2) evs(1) have mem: "ev \<in> set evs" by simp
    with f evs(3) obtain e' where r: "r = Some e'" by (cases r) auto
    with evs(4) have ne: "evs \<noteq> []" and l: "raised (last evs) = Some e'" by auto
    from ne have "evs = butlast evs @ [last evs]" by simp
    with mem have "ev \<in> set (butlast evs) \<or> ev = last evs"
      by (metis Un_iff insert_iff list.set(2) set_append empty_iff list.set(1))
    with evs(2) f have "ev = last evs" by blast
    with l assms(3) r ne evs(1) show ?thesis by simp
  qed
qed

subsection \<open>Order of the steps\<close>

lemma only_last_fails:
  assumes "\<forall>ev\<in>set (butlast evs). \<not> failed ev"
  shows "\<forall>i<length evs. failed (evs ! i) \<longrightarrow> Suc i = length evs"
proof (intro allI impI)
  fix i assume i: "i < length evs" and f: "failed (evs ! i)"
  show "Suc i = length evs"
  proof (rule ccontr)
    assume "Suc i \<noteq> length evs"
    with i have lt: "i < length (butlast evs)" by simp
    then have "butlast evs ! i \<in> set (butlast evs)" by (rule nth_mem)
    moreover from lt have "butlast evs ! i = evs ! i" by (simp add: nth_butlast)
    ultimately show False using assms f by auto
  qed
qed

text \<open>
  Claim C3. In every run of the \<^verbatim>\<open>try\<close> statement, for every declared step list (the
  body of the script), the events of the body are the declared steps in their declared
  order, from the first one on. A failed step is the last step executed: if step \<open>i\<close>
  fails, none of the steps after it runs. If no step fails, all of them run. What follows
  the body in the trace is the \<^verbatim>\<open>finally\<close> block alone, or the handler of the exception
  the last step raised (all of it, or its print alone when that print raises) and then
  the \<^verbatim>\<open>finally\<close> block.
\<close>

theorem steps_in_declared_order:
  "\<exists>evs rest. snd (run sc L tr) = tr @ evs @ rest
     \<and> map stmt_of evs = take (length evs) (body sc)
     \<and> (\<forall>i<length evs. failed (evs ! i) \<longrightarrow> Suc i = length evs)
     \<and> ((\<forall>ev\<in>set evs. \<not> failed ev) \<longrightarrow> length evs = length (body sc))
     \<and> (map stmt_of rest = finally_block
          \<or> (\<exists>e. raised (last evs) = Some e
                \<and> (map stmt_of rest = handler sc e @ finally_block
                     \<or> map stmt_of rest = take 1 (handler sc e) @ finally_block
                        \<and> failed (hd rest))))"
proof -
  obtain r1 tr1 where ex: "exec L (body sc) tr = (r1, tr1)"
    by (cases "exec L (body sc) tr")
  from exec_shape [OF ex] obtain evs where evs: "tr1 = tr @ evs"
      "map stmt_of evs = take (length evs) (body sc)"
      "\<forall>ev\<in>set (butlast evs). \<not> failed ev"
      "r1 = None \<longrightarrow> length evs = length (body sc) \<and> (\<forall>ev\<in>set evs. \<not> failed ev)"
      "\<forall>e. r1 = Some e \<longrightarrow> evs \<noteq> [] \<and> raised (last evs) = Some e"
    by blast
  have order: "\<forall>i<length evs. failed (evs ! i) \<longrightarrow> Suc i = length evs"
    using evs(3) by (rule only_last_fails)
  have full: "(\<forall>ev\<in>set evs. \<not> failed ev) \<longrightarrow> length evs = length (body sc)"
  proof (cases r1)
    case None
    with evs(4) show ?thesis by simp
  next
    case (Some e)
    with evs(5) have "evs \<noteq> []" "raised (last evs) = Some e" by auto
    then have "last evs \<in> set evs" "failed (last evs)"
      by (simp_all add: raised_failed)
    then show ?thesis by blast
  qed
  have "\<exists>rest. snd (run sc L tr) = tr1 @ rest
     \<and> (map stmt_of rest = finally_block
          \<or> (\<exists>e. raised (last evs) = Some e
                \<and> (map stmt_of rest = handler sc e @ finally_block
                     \<or> map stmt_of rest = take 1 (handler sc e) @ finally_block
                        \<and> failed (hd rest))))"
  proof (cases rule: run_cases [of L sc tr])
    case (returned trb rc)
    with ex show ?thesis by (simp add: finally_block_def)
  next
    case (uncaught e trb rc)
    with ex show ?thesis by (simp add: finally_block_def)
  next
    case (caught e trb rh rc)
    with ex evs(5) have le: "raised (last evs) = Some e" and t: "trb = tr1" by auto
    have "map stmt_of [Printed (error_line e), Called (Screenshot (error_path sc)) rh,
        Called BrowserClose rc] = handler sc e @ finally_block"
      by (simp add: finally_block_def handler_def)
    with caught(5) t le show ?thesis by auto
  next
    case (print_raised e trb e1 rc)
    with ex evs(5) have le: "raised (last evs) = Some e" and t: "trb = tr1" by auto
    have "map stmt_of [PrintRaised (error_line e) e1, Called BrowserClose rc] =
        take 1 (handler sc e) @ finally_block"
      "failed (hd [PrintRaised (error_line e) e1, Called BrowserClose rc])"
      by (simp_all add: finally_block_def handler_def)
    with print_raised(5) t le show ?thesis by auto
  qed
  then obtain rest where rest: "snd (run sc L tr) = tr1 @ rest"
     "map stmt_of rest = finally_block
          \<or> (\<exists>e. raised (last evs) = Some e
                \<and> (map stmt_of rest = handler sc e @ finally_block
                     \<or> map stmt_of rest = take 1 (handler sc e) @ finally_block
                        \<and> failed (hd rest)))"
    by blast
  from rest(1) evs(1) have "snd (run sc L tr) = tr @ evs @ rest" by simp
  with evs(2) order full rest(2) show ?thesis by blast
qed

theorem steps_in_declared_order_witness:
  "snd (run verify_mobile_home (spec_library blank_page) []) =
     [Called (Goto ''http://localhost:5173/'' 60000) None,
      Called (ToBeVisible (heading ''Capture Every Moment'') (Some 30000))
        (Some (Exn AssertionError ''element(s) not found'')),
      Printed ([CHR 0xE2, CHR 0x9D, CHR 0x8C] @ '' An error occurred: element(s) not found''),
      Called (Screenshot ''jules-scratch/phase2_verification/mobile_home_error.png'') None,
      Called BrowserClose None]
   \<and> failed (snd (run verify_mobile_home (spec_library blank_page) []) ! 1)"
  using steps_in_declared_order [of verify_mobile_home "spec_library blank_page" "[]"]
  by (simp add: run_def try_except_finally_def verify_mobile_home_def spec_library_def
      blank_page_def handler_def finally_block_def except_Exception_def effective_timeout_def
      error_line_def cross_mark_def)


subsection \<open>Closing the browser\<close>

lemma close_calls_append: "close_calls (xs @ ys) = close_calls xs + close_calls ys"
  by (simp add: close_calls_def)

lemma exec_close_calls:
  assumes "exec L ss tr = (r, tr')" "Await BrowserClose \<notin> set ss"
  shows "close_calls tr' = close_calls tr"
proof -
  from exec_shape [OF assms(1)] obtain evs where
    evs: "tr' = tr @ evs" "map stmt_of evs = take (length evs) ss" by blast
  have "\<not> is_close ev" if "ev \<in> set evs" for ev
  proof
    assume "is_close ev"
    then have "stmt_of ev = Await BrowserClose" by (cases ev rule: is_close.cases) simp_all
    moreover from that have "stmt_of ev \<in> set (map stmt_of evs)" by simp
    ultimately have "Await BrowserClose \<in> set (take (length evs) ss)" using evs(2) by simp
    with assms(2) show False by (blast dest: in_set_takeD)
  qed
  then have "filter is_close evs = []" by (simp add: filter_empty_conv)
  with evs(1) show ?thesis by (simp add: close_calls_def)
qed

lemma run_close_calls:
  assumes "Await BrowserClose \<notin> set (body sc)"
  shows "close_calls (snd (run sc L tr)) = Suc (close_calls tr)"
proof (cases rule: run_cases [of L sc tr])
  case (returned tr1 rc)
  with exec_close_calls [OF returned(1) assms] show ?thesis by (simp add: close_calls_def)
next
  case (caught e tr1 rh rc)
  with exec_close_calls [OF caught(1) assms] show ?thesis by (simp add: close_calls_def)
next
  case (uncaught e tr1 rc)
  with exec_close_calls [OF uncaught(1) assms] show ?thesis by (simp add: close_calls_def)
next
  case (print_raised e tr1 e1 rc)
  with exec_close_calls [OF print_raised(1) assms] show ?thesis by (simp add: close_calls_def)
qed

lemma run_ends_with_close: "is_close (last (snd (run sc L tr)))"
  by (cases rule: run_cases [of L sc tr]) simp_all

lemma scripts_no_close:
  "sc \<in> set scripts \<Longrightarrow> Await BrowserClose \<notin> set (body sc) \<and> Await BrowserClose \<notin> set (preamble sc)"
  by (auto simp: scripts_def verify_lazy_loading_def verify_mobile_products_def
      verify_mobile_home_def iphone_x_context_def)

lemma main_close_calls:
  assumes "Await BrowserClose \<notin> set (body sc)" "Await BrowserClose \<notin> set (preamble sc)"
  shows "close_calls (snd (main sc L)) = (if reaches_try sc L then 1 else 0)"
proof (cases rule: main_cases [of L sc])
  case (start_failed e)
  then show ?thesis by (simp add: close_calls_def)
next
  case (preamble_failed e tr0 rs)
  from exec_close_calls [OF preamble_failed(3) assms(2)] have "close_calls tr0 = 0"
    by (simp add: close_calls_def)
  with preamble_failed(2,5) show ?thesis by (simp add: close_calls_def)
next
  case (running r1 tr1 rs)
  from exec_close_calls [OF running(2) assms(2)] have "close_calls (entry_trace sc L) = 0"
    by (simp add: close_calls_def)
  with run_close_calls [OF assms(1), of L "entry_trace sc L"] running(3)
  have "close_calls tr1 = 1" by simp
  with running(1,5) show ?thesis by (simp add: close_calls_def)
qed

text \<open>
  Claim C2. For each of the three scripts and every behaviour of the environment: a run
  that enters the \<^verbatim>\<open>try\<close> statement (the running state) calls \<^verbatim>\<open>browser.close()\<close>
  exactly once; a run whose start or preamble raises never enters it and calls it not at
  all. From the running state, whatever the trace at entry, the \<^verbatim>\<open>try\<close> statement
  adds exactly one call of \<^verbatim>\<open>browser.close()\<close>, and that call is its last event, on
  every path: the body returned, raised a caught exception, or raised an uncaught one.
\<close>

theorem browser_closed_exactly_once:
  assumes "sc \<in> set scripts"
  shows "close_calls (snd (main sc L)) = (if reaches_try sc L then 1 else 0)
     \<and> (\<forall>tr. close_calls (snd (run sc L tr)) = Suc (close_calls tr)
             \<and> is_close (last (snd (run sc L tr))))"
  using scripts_no_close [OF assms] main_close_calls [of sc L] run_close_calls [of sc L]
    run_ends_with_close [of sc L]
  by simp

theorem browser_closed_exactly_once_witness:
  "verify_lazy_loading \<in> set scripts \<and> reaches_try verify_lazy_loading crashed_page
     \<and> close_calls (snd (main verify_lazy_loading crashed_page)) = 1
     \<and> fst (main verify_lazy_loading crashed_page) \<noteq> None"
proof -
  have s: "verify_lazy_loading \<in> set scripts" by (simp add: scripts_def)
  have r: "reaches_try verify_lazy_loading crashed_page"
    by (simp add: reaches_try_def verify_lazy_loading_def crashed_page_def)
  have f: "fst (main verify_lazy_loading crashed_page) \<noteq> None"
    by (simp add: main_def run_def try_except_finally_def verify_lazy_loading_def crashed_page_def
        handler_def finally_block_def except_Exception_def)
  from browser_closed_exactly_once [OF s, of crashed_page] r s f show ?thesis by simp
qed

subsection \<open>What the trace tells about the phases of a run\<close>

lemma scripts_phases:
  assumes "sc \<in> set scripts"
  shows "Await (Screenshot (error_path sc)) \<notin> set (body sc)"
    and "Await (Screenshot (error_path sc)) \<notin> set (preamble sc)"
    and "Await PlaywrightStart \<notin> set (body sc)"
    and "Await PlaywrightStop \<notin> set (body sc)"
    and "set (preamble sc) \<inter> set (body sc) = {}"
    and "Await PlaywrightStop \<notin> set (preamble sc)"
    and "Print (error_line e) \<notin> set (body sc)"
  using assms
  by (auto simp: scripts_def verify_lazy_loading_def verify_mobile_products_def
      verify_mobile_home_def iphone_x_context_def error_line_def cross_mark_def
      check_mark_def camera_def)

lemma main_caught:
  assumes "reaches_try sc L" "exec L (body sc) (entry_trace sc L) = (Some e, tr1)"
    "except_Exception e" "L tr1 (StdoutWrite (error_line e)) = None"
  shows "main sc L =
    (let rh = L (tr1 @ [Printed (error_line e)]) (Screenshot (error_path sc));
         rc = L (tr1 @ [Printed (error_line e), Called (Screenshot (error_path sc)) rh]) BrowserClose;
         rs = L (tr1 @ [Printed (error_line e), Called (Screenshot (error_path sc)) rh,
                        Called BrowserClose rc]) PlaywrightStop
     in (case rs of Some e2 \<Rightarrow> Some e2
         | None \<Rightarrow> (case rc of Some e3 \<Rightarrow> Some e3 | None \<Rightarrow> rh),
         tr1 @ [Printed (error_line e), Called (Screenshot (error_path sc)) rh,
                Called BrowserClose rc, Called PlaywrightStop rs]))"
  using assms by (simp add: main_running run_caught Let_def)

lemma main_caught_print_raised:
  assumes "reaches_try sc L" "exec L (body sc) (entry_trace sc L) = (Some e, tr1)"
    "except_Exception e" "L tr1 (StdoutWrite (error_line e)) = Some e1"
  shows "main sc L =
    (let rc = L (tr1 @ [PrintRaised (error_line e) e1]) BrowserClose;
         rs = L (tr1 @ [PrintRaised (error_line e) e1, Called BrowserClose rc]) PlaywrightStop
     in (case rs of Some e2 \<Rightarrow> Some e2
         | None \<Rightarrow> (case rc of Some e3 \<Rightarrow> Some e3 | None \<Rightarrow> Some e1),
         tr1 @ [PrintRaised (error_line e) e1, Called BrowserClose rc, Called PlaywrightStop rs]))"
  using assms by (simp add: main_running run_caught_print_raised Let_def)

lemma preamble_events:
  assumes "exec L (preamble sc) [Called PlaywrightStart None] = (r, tr0)" "ev \<in> set tr0"
  shows "stmt_of ev = Await PlaywrightStart \<or> stmt_of ev \<in> set (preamble sc)"
  using exec_events [OF assms] by auto

lemma preamble_ok_events:
  assumes "exec L (preamble sc) [Called PlaywrightStart None] = (None, tr0)" "ev \<in> set tr0"
  shows "raised ev = None"
proof (cases "raised ev")
  case None
  then show ?thesis .
next
  case (Some e)
  from exec_failed_event [OF assms Some] show ?thesis by auto
qed

lemma error_screenshot_event:
  assumes sc: "sc \<in> set scripts"
    and mem: "Called (Screenshot (error_path sc)) rh \<in> set (snd (main sc L))"
  obtains e tr1 where "reaches_try sc L" "exec L (body sc) (entry_trace sc L) = (Some e, tr1)"
    "except_Exception e" "L tr1 (StdoutWrite (error_line e)) = None"
    "rh = L (tr1 @ [Printed (error_line e)]) (Screenshot (error_path sc))"
proof -
  let ?S = "Called (Screenshot (error_path sc)) rh"
  note ph = scripts_phases [OF sc]
  show thesis
  proof (cases rule: main_cases [of L sc])
    case (start_failed e)
    with mem show ?thesis by simp
  next
    case (preamble_failed e tr0 rs)
    with mem have "?S \<in> set tr0" by simp
    from preamble_events [OF preamble_failed(3) this] ph(2) show ?thesis by simp
  next
    case (running r1 tr1 rs)
    with mem have m1: "?S \<in> set tr1" by simp
    have notentry: "?S \<notin> set (entry_trace sc L)"
      using preamble_events [OF running(2), of ?S] ph(2) by auto
    show ?thesis
    proof (cases rule: run_cases [of L sc "entry_trace sc L"])
      case (returned trb rc)
      with running(3) m1 have "?S \<in> set trb" by auto
      from exec_events [OF returned(1) this] notentry ph(1) show ?thesis by simp
    next
      case (uncaught e trb rc)
      with running(3) m1 have "?S \<in> set trb" by auto
      from exec_events [OF uncaught(1) this] notentry ph(1) show ?thesis by simp
    next
      case (print_raised e trb e1 rc)
      with running(3) m1 have "?S \<in> set trb" by auto
      from exec_events [OF print_raised(1) this] notentry ph(1) show ?thesis by simp
    next
      case (caught e trb rh' rc)
      have "?S \<notin> set trb"
        using exec_events [OF caught(1), of ?S] notentry ph(1) by auto
      with caught(5) running(3) m1 have "rh = rh'" by auto
      with caught running(1) show ?thesis by (intro that [of e trb]) simp_all
    qed
  qed
qed

lemma failed_step_run:
  assumes sc: "sc \<in> set scripts"
    and ev: "ev \<in> set (snd (main sc L))" "stmt_of ev \<in> set (body sc)"
      "raised ev = Some e" "except_Exception e"
  obtains before where "reaches_try sc L"
    "exec L (body sc) (entry_trace sc L) = (Some e, before @ [ev])"
proof -
  note ph = scripts_phases [OF sc] and found = that
  show thesis
  proof (cases rule: main_cases [of L sc])
    case (start_failed e0)
    with ev(1,2) ph(3) show ?thesis by simp
  next
    case (preamble_failed e0 tr0 rs)
    with ev(1,2) ph(4) have "ev \<in> set tr0" by auto
    from preamble_events [OF preamble_failed(3) this] ev(2) ph(3,5) show ?thesis by auto
  next
    case (running r1 tr1 rs)
    with ev(1,2) ph(4) have m1: "ev \<in> set tr1" by auto
    have notentry: "ev \<notin> set (entry_trace sc L)"
      using preamble_ok_events [OF running(2), of ev] ev(3) by auto
    have noclose: "ev \<noteq> Called BrowserClose rc" for rc
      using ev(2) scripts_no_close [OF sc] by auto
    have last_of: thesis if ex: "exec L (body sc) (entry_trace sc L) = (Some e', trb)"
      and mem: "ev \<in> set trb" for e' trb
    proof -
      from exec_failed_event [OF ex mem ev(3)] notentry
      have e: "e' = e" and l: "ev = last trb" by simp_all
      from mem have "trb \<noteq> []" by auto
      with l have "trb = butlast trb @ [ev]" by simp
      with ex e have "exec L (body sc) (entry_trace sc L) = (Some e, butlast trb @ [ev])"
        by simp
      with running(1) show ?thesis by (rule found)
    qed
    show ?thesis
    proof (cases rule: run_cases [of L sc "entry_trace sc L"])
      case (returned trb rc)
      with running(3) m1 noclose have "ev \<in> set trb" by auto
      from exec_failed_event [OF returned(1) this ev(3)] notentry show ?thesis by simp
    next
      case (uncaught e' trb rc)
      with running(3) m1 noclose have "ev \<in> set trb" by auto
      with uncaught(1) show ?thesis by (rule last_of)
    next
      case (caught e' trb rh rc)
      have "ev \<noteq> Printed (error_line e')" using ev(3) by auto
      moreover have "ev \<noteq> Called (Screenshot (error_path sc)) rh" using ev(2) ph(1) by auto
      ultimately have "ev \<in> set trb" using caught(5) running(3) m1 noclose by auto
      with caught(1) show ?thesis by (rule last_of)
    next
      case (print_raised e' trb e1 rc)
      have "ev \<noteq> PrintRaised (error_line e') e1" using ev(2) ph(7) [of e'] by auto
      then have "ev \<in> set trb" using print_raised(5) running(3) m1 noclose by auto
      with print_raised(1) show ?thesis by (rule last_of)
    qed
  qed
qed







subsection \<open>A failing screenshot in the handler\<close>

text \<open>
  Claim C8. For each of the three scripts and every behaviour of the environment: when
  the diagnostic screenshot of the \<^verbatim>\<open>except\<close> clause (the screenshot to the error path)
  itself raises an exception \<open>e'\<close>, the very next event of the run is the call of
  \<^verbatim>\<open>browser.close()\<close> of the \<^verbatim>\<open>finally\<close> block, followed by the stop of the library,
  and only then does \<^verbatim>\<open>main\<close> end. It ends with an exception, never normally: with
  \<open>e'\<close> when the close and the stop return, with theirs otherwise.
\<close>

theorem close_survives_failing_error_screenshot:
  assumes "sc \<in> set scripts"
    and "Called (Screenshot (error_path sc)) (Some e') \<in> set (snd (main sc L))"
  shows "\<exists>before rc rs.
      snd (main sc L) = before @ [Called (Screenshot (error_path sc)) (Some e'),
                                  Called BrowserClose rc, Called PlaywrightStop rs]
    \<and> fst (main sc L) = (case rs of Some e2 \<Rightarrow> Some e2
                          | None \<Rightarrow> (case rc of Some e3 \<Rightarrow> Some e3 | None \<Rightarrow> Some e'))
    \<and> fst (main sc L) \<noteq> None"
proof -
  from assms obtain e tr1 where run: "reaches_try sc L"
      "exec L (body sc) (entry_trace sc L) = (Some e, tr1)" "except_Exception e"
      "L tr1 (StdoutWrite (error_line e)) = None"
      "Some e' = L (tr1 @ [Printed (error_line e)]) (Screenshot (error_path sc))"
    by (rule error_screenshot_event)
  define rc where "rc = L (tr1 @ [Printed (error_line e),
      Called (Screenshot (error_path sc)) (Some e')]) BrowserClose"
  define rs where "rs = L (tr1 @ [Printed (error_line e),
      Called (Screenshot (error_path sc)) (Some e'), Called BrowserClose rc]) PlaywrightStop"
  from main_caught [OF run(1,2,3,4)] run(5) [symmetric]
  have m: "main sc L =
      (case rs of Some e2 \<Rightarrow> Some e2 | None \<Rightarrow> (case rc of Some e3 \<Rightarrow> Some e3 | None \<Rightarrow> Some e'),
       (tr1 @ [Printed (error_line e)]) @ [Called (Screenshot (error_path sc)) (Some e'),
          Called BrowserClose rc, Called PlaywrightStop rs])"
    unfolding rc_def rs_def by (simp add: Let_def split: option.split)
  have "fst (main sc L) \<noteq> None"
    unfolding m by (simp split: option.split)
  with m show ?thesis
    by (intro exI [of _ "tr1 @ [Printed (error_line e)]"] exI [of _ rc] exI [of _ rs]) simp
qed

theorem close_survives_failing_error_screenshot_witness:
  "verify_mobile_home \<in> set scripts
   \<and> Called (Screenshot (error_path verify_mobile_home))
        (Some (Exn OtherException ''Target page, context or browser has been closed''))
        \<in> set (snd (main verify_mobile_home crashed_page))
   \<and> (\<exists>before. snd (main verify_mobile_home crashed_page) =
          before @ [Called (Screenshot (error_path verify_mobile_home))
                      (Some (Exn OtherException ''Target page, context or browser has been closed'')),
                    Called BrowserClose None, Called PlaywrightStop None])
   \<and> fst (main verify_mobile_home crashed_page) =
        Some (Exn OtherException ''Target page, context or browser has been closed'')"
proof -
  have s: "verify_mobile_home \<in> set scripts" by (simp add: scripts_def)
  have m: "main verify_mobile_home crashed_page =
     (Some (Exn OtherException ''Target page, context or browser has been closed''),
      [Called PlaywrightStart None, Called (Launch True) None, Called iphone_x_context None,
       Called ContextNewPage None,
       Called (Goto ''http://localhost:5173/'' 60000) (Some (Exn NavigationError ''Page crashed'')),
       Printed ([CHR 0xE2, CHR 0x9D, CHR 0x8C] @ '' An error occurred: Page crashed''),
       Called (Screenshot (error_path verify_mobile_home))
         (Some (Exn OtherException ''Target page, context or browser has been closed'')),
       Called BrowserClose None, Called PlaywrightStop None])"
    by (simp add: main_def run_def try_except_finally_def verify_mobile_home_def crashed_page_def
        handler_def finally_block_def except_Exception_def iphone_x_context_def
        error_line_def cross_mark_def)
  have h: "Called (Screenshot (error_path verify_mobile_home))
        (Some (Exn OtherException ''Target page, context or browser has been closed''))
        \<in> set (snd (main verify_mobile_home crashed_page))"
    unfolding m by simp
  from close_survives_failing_error_screenshot [OF s h] obtain before rc rs where
    c: "snd (main verify_mobile_home crashed_page) =
        before @ [Called (Screenshot (error_path verify_mobile_home))
                    (Some (Exn OtherException ''Target page, context or browser has been closed'')),
                  Called BrowserClose rc, Called PlaywrightStop rs]"
    by blast
  then have "rc = None \<and> rs = None" unfolding m by simp
  with c s h m show ?thesis by auto
qed

subsection \<open>A caught step error and the exit status\<close>




subsection \<open>The single handler\<close>

text \<open>
  Claim C6. In the library as the specification describes it, a click whose target
  element is absent fails with \<open>ElementNotFoundError\<close>. That error, like
  \<open>NavigationError\<close> and \<open>AssertionError\<close>, is an instance of \<^verbatim>\<open>Exception\<close>, and for
  each of the three scripts and every behaviour of the environment, a step of the
  \<^verbatim>\<open>try\<close> body that raises such an exception \<open>e\<close> is followed at once by the one
  handler of the run, whatever the kind of \<open>e\<close>: the error line with the text of \<open>e\<close> is
  printed, the diagnostic screenshot is taken, then the browser is closed and the
  library stopped, and the outcome of \<^verbatim>\<open>main\<close> is the outcome of those three calls. Only
  when the print of the error line itself raises is the screenshot skipped: the browser
  is closed and the library stopped at once, and the outcome is theirs or that of the
  print. In no case is \<open>e\<close> itself raised again.
\<close>

theorem step_errors_caught_at_top_level:
  "(\<not> present w h q \<longrightarrow>
      spec_library w h (Click q) = Some (Exn ElementNotFoundError (error_text w h (Click q))))
   \<and> except_Exception (Exn NavigationError m1)
   \<and> except_Exception (Exn AssertionError m2)
   \<and> except_Exception (Exn ElementNotFoundError m3)
   \<and> (sc \<in> set scripts \<longrightarrow> Await c \<in> set (body sc) \<longrightarrow>
        Called c (Some e) \<in> set (snd (main sc L)) \<longrightarrow> except_Exception e \<longrightarrow>
        (\<exists>before rh rc rs.
            snd (main sc L) = before @ [Called c (Some e),
              Printed ([CHR 0xE2, CHR 0x9D, CHR 0x8C] @ '' An error occurred: '' @ message e),
              Called (Screenshot (error_path sc)) rh, Called BrowserClose rc,
              Called PlaywrightStop rs]
          \<and> fst (main sc L) = (case rs of Some e2 \<Rightarrow> Some e2
                | None \<Rightarrow> (case rc of Some e3 \<Rightarrow> Some e3 | None \<Rightarrow> rh)))
      \<or> (\<exists>before e1 rc rs.
            snd (main sc L) = before @ [Called c (Some e),
              PrintRaised ([CHR 0xE2, CHR 0x9D, CHR 0x8C] @ '' An error occurred: '' @ message e) e1,
              Called BrowserClose rc, Called PlaywrightStop rs]
          \<and> fst (main sc L) = (case rs of Some e2 \<Rightarrow> Some e2
                | None \<Rightarrow> (case rc of Some e3 \<Rightarrow> Some e3 | None \<Rightarrow> Some e1))))"
proof (intro conjI impI)
  show "spec_library w h (Click q) = Some (Exn ElementNotFoundError (error_text w h (Click q)))"
    if "\<not> present w h q"
    using that by (simp add: spec_library_def)
  show "except_Exception (Exn NavigationError m1)" "except_Exception (Exn AssertionError m2)"
    "except_Exception (Exn ElementNotFoundError m3)"
    by (simp_all add: except_Exception_def)
next
  assume sc: "sc \<in> set scripts" and c: "Await c \<in> set (body sc)"
    and ev: "Called c (Some e) \<in> set (snd (main sc L))" and e: "except_Exception e"
  have el: "[CHR 0xE2, CHR 0x9D, CHR 0x8C] @ '' An error occurred: '' @ message e = error_line e"
    by (simp add: error_line_def cross_mark_def)
  from c have st: "stmt_of (Called c (Some e)) \<in> set (body sc)" by simp
  have ra: "raised (Called c (Some e)) = Some e" by simp
  obtain before where run: "reaches_try sc L"
      "exec L (body sc) (entry_trace sc L) = (Some e, before @ [Called c (Some e)])"
    by (rule failed_step_run [OF sc ev st ra e])
  define tr1 where "tr1 = before @ [Called c (Some e)]"
  from run(2) have ex: "exec L (body sc) (entry_trace sc L) = (Some e, tr1)"
    by (simp add: tr1_def)
  show "(\<exists>before rh rc rs.
            snd (main sc L) = before @ [Called c (Some e),
              Printed ([CHR 0xE2, CHR 0x9D, CHR 0x8C] @ '' An error occurred: '' @ message e),
              Called (Screenshot (error_path sc)) rh, Called BrowserClose rc,
              Called PlaywrightStop rs]
          \<and> fst (main sc L) = (case rs of Some e2 \<Rightarrow> Some e2
                | None \<Rightarrow> (case rc of Some e3 \<Rightarrow> Some e3 | None \<Rightarrow> rh)))
      \<or> (\<exists>before e1 rc rs.
            snd (main sc L) = before @ [Called c (Some e),
              PrintRaised ([CHR 0xE2, CHR 0x9D, CHR 0x8C] @ '' An error occurred: '' @ message e) e1,
              Called BrowserClose rc, Called PlaywrightStop rs]
          \<and> fst (main sc L) = (case rs of Some e2 \<Rightarrow> Some e2
                | None \<Rightarrow> (case rc of Some e3 \<Rightarrow> Some e3 | None \<Rightarrow> Some e1)))"
  proof (cases "L tr1 (StdoutWrite (error_line e))")
    case None
    define rh where "rh = L (tr1 @ [Printed (error_line e)]) (Screenshot (error_path sc))"
    define rc where "rc = L (tr1 @ [Printed (error_line e),
        Called (Screenshot (error_path sc)) rh]) BrowserClose"
    define rs where "rs = L (tr1 @ [Printed (error_line e),
        Called (Screenshot (error_path sc)) rh, Called BrowserClose rc]) PlaywrightStop"
    from main_caught [OF run(1) ex e None]
    have m: "main sc L =
        (case rs of Some e2 \<Rightarrow> Some e2 | None \<Rightarrow> (case rc of Some e3 \<Rightarrow> Some e3 | None \<Rightarrow> rh),
         tr1 @ [Printed (error_line e), Called (Screenshot (error_path sc)) rh,
            Called BrowserClose rc, Called PlaywrightStop rs])"
      unfolding rh_def rc_def rs_def by (simp add: Let_def)
    have "\<exists>before rh rc rs.
            snd (main sc L) = before @ [Called c (Some e), Printed (error_line e),
              Called (Screenshot (error_path sc)) rh, Called BrowserClose rc,
              Called PlaywrightStop rs]
          \<and> fst (main sc L) = (case rs of Some e2 \<Rightarrow> Some e2
                | None \<Rightarrow> (case rc of Some e3 \<Rightarrow> Some e3 | None \<Rightarrow> rh))"
      unfolding m tr1_def
      by (intro exI [of _ before] exI [of _ rh] exI [of _ rc] exI [of _ rs]) simp
    then show ?thesis unfolding el by (rule disjI1)
  next
    case (Some e1)
    define rc where "rc = L (tr1 @ [PrintRaised (error_line e) e1]) BrowserClose"
    define rs where "rs = L (tr1 @ [PrintRaised (error_line e) e1,
        Called BrowserClose rc]) PlaywrightStop"
    from main_caught_print_raised [OF run(1) ex e Some]
    have m: "main sc L =
        (case rs of Some e2 \<Rightarrow> Some e2 | None \<Rightarrow> (case rc of Some e3 \<Rightarrow> Some e3 | None \<Rightarrow> Some e1),
         tr1 @ [PrintRaised (error_line e) e1, Called BrowserClose rc, Called PlaywrightStop rs])"
      unfolding rc_def rs_def by (simp add: Let_def)
    have "\<exists>before e1 rc rs.
            snd (main sc L) = before @ [Called c (Some e), PrintRaised (error_line e) e1,
              Called BrowserClose rc, Called PlaywrightStop rs]
          \<and> fst (main sc L) = (case rs of Some e2 \<Rightarrow> Some e2
                | None \<Rightarrow> (case rc of Some e3 \<Rightarrow> Some e3 | None \<Rightarrow> Some e1))"
      unfolding m tr1_def
      by (intro exI [of _ before] exI [of _ e1] exI [of _ rc] exI [of _ rs]) simp
    then show ?thesis unfolding el by (rule disjI2)
  qed
qed

theorem step_errors_caught_at_top_level_witness:
  "\<not> present no_products_link []
       [GetByRole ''navigation'' None False, GetByRole ''link'' (Some ''Products'') False]
   \<and> main verify_lazy_loading (spec_library no_products_link) =
     (None,
      [Called PlaywrightStart None, Called (Launch True) None, Called BrowserNewPage None,
       Called (Goto ''http://localhost:5173/'' 60000) None,
       Called (ToBeVisible (heading ''Capture Every Moment'') None) None,
       Printed ([CHR 0xE2, CHR 0x9C, CHR 0x85] @ '' Home page loaded successfully.''),
       Called (Click [GetByRole ''navigation'' None False, GetByRole ''link'' (Some ''Products'') False])
         (Some (Exn ElementNotFoundError ''element(s) not found'')),
       Printed ([CHR 0xE2, CHR 0x9D, CHR 0x8C] @ '' An error occurred: element(s) not found''),
       Called (Screenshot ''jules-scratch/verification/lazy_loading_error.png'') None,
       Called BrowserClose None, Called PlaywrightStop None])"
proof -
  let ?q = "[GetByRole ''navigation'' None False, GetByRole ''link'' (Some ''Products'') False]"
  let ?e = "Exn ElementNotFoundError ''element(s) not found''"
  have s: "verify_lazy_loading \<in> set scripts" by (simp add: scripts_def)
  have b: "Await (Click ?q) \<in> set (body verify_lazy_loading)"
    by (simp add: verify_lazy_loading_def)
  have p: "\<not> present no_products_link [] ?q" by (simp add: no_products_link_def)
  have m: "main verify_lazy_loading (spec_library no_products_link) =
     (None,
      [Called PlaywrightStart None, Called (Launch True) None, Called BrowserNewPage None,
       Called (Goto ''http://localhost:5173/'' 60000) None,
       Called (ToBeVisible (heading ''Capture Every Moment'') None) None,
       Printed ([CHR 0xE2, CHR 0x9C, CHR 0x85] @ '' Home page loaded successfully.''),
       Called (Click ?q) (Some ?e),
       Printed ([CHR 0xE2, CHR 0x9D, CHR 0x8C] @ '' An error occurred: element(s) not found''),
       Called (Screenshot ''jules-scratch/verification/lazy_loading_error.png'') None,
       Called BrowserClose None, Called PlaywrightStop None])"
    by (simp add: main_def run_def try_except_finally_def verify_lazy_loading_def
        spec_library_def no_products_link_def handler_def finally_block_def except_Exception_def
        heading_def effective_timeout_def error_line_def cross_mark_def check_mark_def)
  have ev: "Called (Click ?q) (Some ?e) \<in> set (snd (main verify_lazy_loading (spec_library no_products_link)))"
    unfolding m by simp
  have e: "except_Exception ?e" by (simp add: except_Exception_def)
  from step_errors_caught_at_top_level
    [of no_products_link "[]" ?q "[]" "[]" "[]" verify_lazy_loading "Click ?q" ?e
      "spec_library no_products_link"] s b ev e p m
  show ?thesis by simp
qed

subsection \<open>Runs in which every call returns\<close>

lemma ok_event_stmt_of: "\<not> failed ev \<Longrightarrow> ok_event (stmt_of ev) = ev"
  by (cases ev rule: failed.cases) simp_all

lemma not_failed_ok: "\<not> failed (ok_event s)"
  by (cases s) simp_all

lemma raised_ok: "raised (ok_event s) = None"
  by (cases s) simp_all

lemma exec_returned:
  assumes "exec L ss tr = (None, tr')"
  shows "tr' = tr @ map ok_event ss"
proof -
  from exec_shape [OF assms] obtain evs where evs: "tr' = tr @ evs"
      "map stmt_of evs = take (length evs) ss" "length evs = length ss"
      "\<forall>ev\<in>set evs. \<not> failed ev"
    by auto
  from evs(4) have "map ok_event (map stmt_of evs) = evs"
    by (simp add: map_idI ok_event_stmt_of)
  with evs(1,2,3) show ?thesis by simp
qed

lemma exec_raised_failed:
  assumes "exec L ss tr = (Some e, tr')"
  shows "\<exists>ev\<in>set tr'. failed ev \<and> raised ev = Some e \<and> stmt_of ev \<in> set ss"
proof -
  from exec_shape [OF assms] obtain evs where evs: "tr' = tr @ evs"
      "map stmt_of evs = take (length evs) ss" "evs \<noteq> []" "raised (last evs) = Some e"
    by auto
  from evs(3) have mem: "last evs \<in> set evs" by simp
  then have "stmt_of (last evs) \<in> set (map stmt_of evs)" by simp
  with evs(2) have "stmt_of (last evs) \<in> set ss" by (auto dest: in_set_takeD)
  with mem evs(1,4) show ?thesis by (auto intro: raised_failed)
qed

lemma main_all_returned:
  assumes "\<forall>ev\<in>set (snd (main sc L)). \<not> failed ev"
  shows "main sc L =
    (None, Called PlaywrightStart None # map ok_event (preamble sc) @ map ok_event (body sc)
       @ [Called BrowserClose None, Called PlaywrightStop None])"
proof (cases rule: main_cases [of L sc])
  case (start_failed e)
  with assms show ?thesis by simp
next
  case (preamble_failed e tr0 rs)
  from exec_raised_failed [OF preamble_failed(3)] preamble_failed(5) assms
  show ?thesis by auto
next
  case (running r1 tr1 rs)
  from exec_returned [OF running(2)]
  have entry: "entry_trace sc L = Called PlaywrightStart None # map ok_event (preamble sc)"
    by simp
  have sub: "ev \<in> set tr1 \<Longrightarrow> \<not> failed ev" for ev
    using assms running(5) by simp
  have rs: "rs = None"
  proof (cases rs)
    case (Some e)
    with assms running(5) show ?thesis by simp
  qed simp
  show ?thesis
  proof (cases rule: run_cases [of L sc "entry_trace sc L"])
    case (returned trb rc)
    have rc: "rc = None"
    proof (cases rc)
      case (Some e)
      with sub [of "Called BrowserClose rc"] returned(3) running(3) show ?thesis by simp
    qed simp
    from exec_returned [OF returned(1)] entry returned(3) running(3,5) rc rs
    show ?thesis by auto
  next
    case (caught e trb rh rc)
    from exec_raised_failed [OF caught(1)] caught(5) running(3) sub show ?thesis by auto
  next
    case (uncaught e trb rc)
    from exec_raised_failed [OF uncaught(1)] uncaught(4) running(3) sub show ?thesis by auto
  next
    case (print_raised e trb e1 rc)
    from exec_raised_failed [OF print_raised(1)] print_raised(5) running(3) sub
    show ?thesis by auto
  qed
qed

lemma files_written_append: "files_written (xs @ ys) = files_written xs @ files_written ys"
  by (induction xs rule: files_written.induct) simp_all

lemma files_written_ok: "files_written (map ok_event ss) = screenshot_paths ss"
  by (induction ss rule: screenshot_paths.induct) simp_all


lemma scripts_screenshots:
  assumes "sc \<in> set scripts"
  shows "screenshot_paths (preamble sc) = []"
    and "length (screenshot_paths (body sc)) = 1"
    and "error_path sc \<notin> set (screenshot_paths (body sc))"
  using assms
  by (auto simp: scripts_def verify_lazy_loading_def verify_mobile_products_def
      verify_mobile_home_def iphone_x_context_def)

text \<open>
  Claim C4, as the code has it. For each of the three scripts and every behaviour of the
  environment: in a run in which the application serves every step that asks something of
  it (every navigation, visibility assertion and click of the run returns), and in which
  every other call of the run returns as well (the start, the launch, the creation of
  context and page, the prints, the screenshot, the close, the stop), \<^verbatim>\<open>main\<close> returns
  normally after all declared steps in their order, no exception is caught, and the
  files written are exactly the one screenshot the body declares, at the success path of
  the script, and none at its error path.
\<close>

theorem served_run_succeeds:
  assumes "sc \<in> set scripts"
    and "\<forall>ev\<in>set (snd (main sc L)). app_event ev \<longrightarrow> \<not> failed ev"
    and "\<forall>ev\<in>set (snd (main sc L)). \<not> app_event ev \<longrightarrow> \<not> failed ev"
  shows "main sc L =
      (None, Called PlaywrightStart None # map ok_event (preamble sc) @ map ok_event (body sc)
         @ [Called BrowserClose None, Called PlaywrightStop None])
    \<and> \<not> step_error_caught sc (snd (main sc L))
    \<and> files_written (snd (main sc L)) = screenshot_paths (body sc)
    \<and> length (files_written (snd (main sc L))) = 1
    \<and> error_path sc \<notin> set (files_written (snd (main sc L)))
    \<and> map (\<lambda>s. screenshot_paths (body s)) scripts =
        [[''jules-scratch/verification/lazy_loading_success.png''],
         [''jules-scratch/verification/mobile_products_before.png''],
         [''jules-scratch/phase2_verification/mobile_home_analysis.png'']]"
proof -
  from assms(2,3) have nf: "\<forall>ev\<in>set (snd (main sc L)). \<not> failed ev" by blast
  note m = main_all_returned [OF nf] and ss = scripts_screenshots [OF assms(1)]
  have nc: "\<not> step_error_caught sc (snd (main sc L))"
  proof
    assume "step_error_caught sc (snd (main sc L))"
    then obtain ev e where "ev \<in> set (snd (main sc L))" "raised ev = Some e"
      by (auto simp: step_error_caught_def split: option.splits)
    with nf show False by (auto dest: raised_failed)
  qed
  have fw: "files_written (snd (main sc L)) = screenshot_paths (body sc)"
    unfolding m using ss(1)
    by (simp add: files_written_append files_written_ok
        files_written_append [of "[Called PlaywrightStart None]", simplified])
  have paths: "map (\<lambda>s. screenshot_paths (body s)) scripts =
        [[''jules-scratch/verification/lazy_loading_success.png''],
         [''jules-scratch/verification/mobile_products_before.png''],
         [''jules-scratch/phase2_verification/mobile_home_analysis.png'']]"
    by (simp add: scripts_def verify_lazy_loading_def verify_mobile_products_def
        verify_mobile_home_def)
  from m nc fw ss(2,3) paths show ?thesis by simp
qed

theorem served_run_succeeds_witness:
  "fst (main verify_lazy_loading (spec_library app_up)) = None
   \<and> files_written (snd (main verify_lazy_loading (spec_library app_up))) =
        [''jules-scratch/verification/lazy_loading_success.png'']
   \<and> printed (snd (main verify_lazy_loading (spec_library app_up))) =
        [[CHR 0xE2, CHR 0x9C, CHR 0x85] @ '' Home page loaded successfully.'',
         [CHR 0xE2, CHR 0x9C, CHR 0x85] @ '' Products page loaded successfully.'',
         [CHR 0xE2, CHR 0x9C, CHR 0x85] @ '' Login page loaded successfully.'',
         [CHR 0xE2, CHR 0x9C, CHR 0x85] @ '' Admin login page loaded successfully.'',
         [CHR 0xF0, CHR 0x9F, CHR 0x93, CHR 0xB8] @ '' Screenshot taken. Verification successful!'']"
proof -
  let ?L = "spec_library app_up"
  have s: "verify_lazy_loading \<in> set scripts" by (simp add: scripts_def)
  have m: "main verify_lazy_loading ?L =
      (None, Called PlaywrightStart None # map ok_event (preamble verify_lazy_loading)
         @ map ok_event (body verify_lazy_loading)
         @ [Called BrowserClose None, Called PlaywrightStop None])"
    by (simp add: main_def run_def try_except_finally_def verify_lazy_loading_def
        spec_library_def app_up_def handler_def finally_block_def)
  have nf: "\<forall>ev\<in>set (snd (main verify_lazy_loading ?L)). \<not> failed ev"
    unfolding m by (auto simp: not_failed_ok)
  then have a: "\<forall>ev\<in>set (snd (main verify_lazy_loading ?L)). app_event ev \<longrightarrow> \<not> failed ev"
    and b: "\<forall>ev\<in>set (snd (main verify_lazy_loading ?L)). \<not> app_event ev \<longrightarrow> \<not> failed ev"
    by blast+
  have p: "printed (snd (main verify_lazy_loading ?L)) =
        [[CHR 0xE2, CHR 0x9C, CHR 0x85] @ '' Home page loaded successfully.'',
         [CHR 0xE2, CHR 0x9C, CHR 0x85] @ '' Products page loaded successfully.'',
         [CHR 0xE2, CHR 0x9C, CHR 0x85] @ '' Login page loaded successfully.'',
         [CHR 0xE2, CHR 0x9C, CHR 0x85] @ '' Admin login page loaded successfully.'',
         [CHR 0xF0, CHR 0x9F, CHR 0x93, CHR 0xB8] @ '' Screenshot taken. Verification successful!'']"
    unfolding m by (simp add: verify_lazy_loading_def check_mark_def camera_def)
  from served_run_succeeds [OF s a b] p show ?thesis
    by (simp add: verify_lazy_loading_def)
qed

text \<open>
  The application alone does not decide the outcome. With the application up and every
  element there, but a full disk, the success screenshot of the mobile-products script
  raises: the exception is caught, the screenshot of the handler raises as well, no file
  is written and the process ends with status 1.
\<close>

theorem served_run_full_disk_counterexample:
  "filter app_event (snd (main verify_mobile_products full_disk)) =
     [Called (Goto ''http://localhost:5174/products'' 60000) None,
      Called (ToBeVisible [GetByRole ''heading'' (Some ''Products'') True] (Some 30000)) None]
   \<and> step_error_caught verify_mobile_products (snd (main verify_mobile_products full_disk))
   \<and> files_written (snd (main verify_mobile_products full_disk)) = []
   \<and> exit_status (fst (main verify_mobile_products full_disk)) = 1"
proof -
  have m: "main verify_mobile_products full_disk =
     (Some (Exn OtherException ''No space left on device''),
      [Called PlaywrightStart None, Called (Launch True) None, Called iphone_x_context None,
       Called ContextNewPage None,
       Called (Goto ''http://localhost:5174/products'' 60000) None,
       Called (ToBeVisible [GetByRole ''heading'' (Some ''Products'') True] (Some 30000)) None,
       Printed ([CHR 0xE2, CHR 0x9C, CHR 0x85] @ '' Products page loaded successfully.''),
       Called (Screenshot ''jules-scratch/verification/mobile_products_before.png'')
         (Some (Exn OtherException ''No space left on device'')),
       Printed ([CHR 0xE2, CHR 0x9D, CHR 0x8C] @ '' An error occurred: No space left on device''),
       Called (Screenshot ''jules-scratch/verification/mobile_products_error.png'')
         (Some (Exn OtherException ''No space left on device'')),
       Called BrowserClose None, Called PlaywrightStop None])"
    by (simp add: main_def run_def try_except_finally_def verify_mobile_products_def
        full_disk_def handler_def finally_block_def except_Exception_def iphone_x_context_def
        error_line_def cross_mark_def check_mark_def heading_exact_def)
  show ?thesis
    unfolding m
    by (simp add: step_error_caught_def verify_mobile_products_def except_Exception_def
        iphone_x_context_def)
qed


subsection \<open>An unreachable application\<close>









subsection \<open>The home-page scenario\<close>




subsection \<open>Navigation targets\<close>

lemma navigations_append: "navigations (xs @ ys) = navigations xs @ navigations ys"
  by (induction xs rule: navigations.induct) simp_all

lemma exec_navigations:
  "exec L ss tr = (r, tr') \<Longrightarrow> goto_urls ss = [] \<Longrightarrow> navigations tr' = navigations tr"
proof (induction L ss tr rule: exec.induct)
  case (1 L tr)
  then show ?case by simp
next
  case (2 L s ss tr)
  show ?case
  proof (cases "L tr (StdoutWrite s)")
    case None
    with 2 have "navigations tr' = navigations (tr @ [Printed s])" by simp
    then show ?thesis by (simp add: navigations_append)
  next
    case (Some e)
    with "2.prems" have "tr' = tr @ [PrintRaised s e]" by auto
    then show ?thesis by (simp add: navigations_append)
  qed
next
  case (3 L c ss tr)
  from "3.prems"(2) have ng: "navigations [Called c x] = []" and g: "goto_urls ss = []" for x
    by (cases c; simp)+
  show ?case
  proof (cases "L tr c")
    case None
    with 3 g have "navigations tr' = navigations (tr @ [Called c None])" by simp
    with ng show ?thesis by (simp add: navigations_append)
  next
    case (Some e)
    with "3.prems" have "tr' = tr @ [Called c (Some e)]" by auto
    with ng show ?thesis by (simp add: navigations_append)
  qed
qed

lemma exec_first_goto:
  assumes "exec L (Await (Goto u t) # rest) tr = (r, tr')" "goto_urls rest = []"
  shows "navigations tr' = navigations tr @ [u]"
proof (cases "L tr (Goto u t)")
  case None
  with assms(1) have "exec L rest (tr @ [Called (Goto u t) None]) = (r, tr')" by simp
  from exec_navigations [OF this assms(2)] show ?thesis by (simp add: navigations_append)
next
  case (Some e)
  with assms(1) have "tr' = tr @ [Called (Goto u t) (Some e)]" by auto
  then show ?thesis by (simp add: navigations_append)
qed

lemma main_navigations:
  assumes b: "body sc = Await (Goto u t) # rest" "goto_urls rest = []"
    and p: "goto_urls (preamble sc) = []"
  shows "navigations (snd (main sc L)) = (if reaches_try sc L then [u] else [])"
proof (cases rule: main_cases [of L sc])
  case (start_failed e)
  then show ?thesis by simp
next
  case (preamble_failed e tr0 rs)
  from exec_navigations [OF preamble_failed(3) p] preamble_failed(2,5)
  show ?thesis by (simp add: navigations_append)
next
  case (running r1 tr1 rs)
  from exec_navigations [OF running(2) p] have n0: "navigations (entry_trace sc L) = []" by simp
  have "navigations tr1 = [u]"
  proof (cases rule: run_cases [of L sc "entry_trace sc L"])
    case (returned trb rc)
    from exec_first_goto [OF returned(1) [unfolded b(1)] b(2)] n0 returned(3) running(3)
    show ?thesis by (auto simp: navigations_append)
  next
    case (caught e trb rh rc)
    from exec_first_goto [OF caught(1) [unfolded b(1)] b(2)] n0 caught(5) running(3)
    show ?thesis by (auto simp: navigations_append)
  next
    case (uncaught e trb rc)
    from exec_first_goto [OF uncaught(1) [unfolded b(1)] b(2)] n0 uncaught(4) running(3)
    show ?thesis by (auto simp: navigations_append)
  next
    case (print_raised e trb e1 rc)
    from exec_first_goto [OF print_raised(1) [unfolded b(1)] b(2)] n0 print_raised(5) running(3)
    show ?thesis by (auto simp: navigations_append)
  qed
  with running(1,5) show ?thesis by (simp add: navigations_append)
qed

text \<open>
  Claim C9. For every behaviour of the library, a run of the mobile-products script
  that enters the \<^verbatim>\<open>try\<close> statement navigates exactly once, to
  \<^verbatim>\<open>http://localhost:5174/products\<close> (a run that does not enter it navigates nowhere).
  The port of that URL is 5174, while every URL the other two scripts navigate to
  (\<^verbatim>\<open>http://localhost:5173/\<close> and \<^verbatim>\<open>http://localhost:5173/admin/login\<close>) has port 5173.
\<close>

theorem products_navigation_target:
  "navigations (snd (main verify_mobile_products L)) =
      (if reaches_try verify_mobile_products L then [''http://localhost:5174/products''] else [])
   \<and> url_port ''http://localhost:5174/products'' = ''5174''
   \<and> goto_urls (body verify_lazy_loading) =
        [''http://localhost:5173/'', ''http://localhost:5173/admin/login'']
   \<and> goto_urls (body verify_mobile_home) = [''http://localhost:5173/'']
   \<and> map url_port (goto_urls (body verify_lazy_loading) @ goto_urls (body verify_mobile_home)) =
        [''5173'', ''5173'', ''5173'']"
proof (intro conjI)
  show "navigations (snd (main verify_mobile_products L)) =
      (if reaches_try verify_mobile_products L then [''http://localhost:5174/products''] else [])"
  proof -
    have b: "body verify_mobile_products =
        Await (Goto ''http://localhost:5174/products'' 60000) # tl (body verify_mobile_products)"
      by (simp add: verify_mobile_products_def)
    have g: "goto_urls (tl (body verify_mobile_products)) = []"
      by (simp add: verify_mobile_products_def)
    have p: "goto_urls (preamble verify_mobile_products) = []"
      by (simp add: verify_mobile_products_def iphone_x_context_def)
    from b g p show ?thesis by (rule main_navigations)
  qed
qed (simp_all add: url_port_def verify_lazy_loading_def verify_mobile_home_def)

theorem products_navigation_target_witness:
  "reaches_try verify_mobile_products crashed_page
   \<and> navigations (snd (main verify_mobile_products crashed_page)) = [''http://localhost:5174/products'']"
proof -
  have r: "reaches_try verify_mobile_products crashed_page"
    by (simp add: reaches_try_def verify_mobile_products_def crashed_page_def iphone_x_context_def)
  from products_navigation_target [of crashed_page] r show ?thesis by simp
qed

subsection \<open>Timeouts of the visibility assertions\<close>

lemma run_events:
  assumes "ev \<in> set (snd (run sc L tr))"
  shows "ev \<in> set tr \<or> stmt_of ev \<in> set (body sc) \<or> (\<exists>s. stmt_of ev = Print s)
     \<or> stmt_of ev = Await (Screenshot (error_path sc)) \<or> stmt_of ev = Await BrowserClose"
proof (cases rule: run_cases [of L sc tr])
  case (returned tr1 rc)
  with assms have "ev \<in> set tr1 \<or> ev = Called BrowserClose rc" by auto
  with exec_events [OF returned(1), of ev] show ?thesis by auto
next
  case (caught e tr1 rh rc)
  with assms have "ev \<in> set tr1 \<or> ev = Printed (error_line e)
      \<or> ev = Called (Screenshot (error_path sc)) rh \<or> ev = Called BrowserClose rc" by auto
  with exec_events [OF caught(1), of ev] show ?thesis by auto
next
  case (uncaught e tr1 rc)
  with assms have "ev \<in> set tr1 \<or> ev = Called BrowserClose rc" by auto
  with exec_events [OF uncaught(1), of ev] show ?thesis by auto
next
  case (print_raised e tr1 e1 rc)
  with assms have "ev \<in> set tr1 \<or> ev = PrintRaised (error_line e) e1
      \<or> ev = Called BrowserClose rc" by auto
  with exec_events [OF print_raised(1), of ev] show ?thesis by auto
qed

lemma main_events:
  assumes "ev \<in> set (snd (main sc L))"
  shows "stmt_of ev \<in> set (preamble sc) \<or> stmt_of ev \<in> set (body sc) \<or> (\<exists>s. stmt_of ev = Print s)
     \<or> stmt_of ev \<in> {Await PlaywrightStart, Await PlaywrightStop, Await BrowserClose,
          Await (Screenshot (error_path sc))}"
proof (cases rule: main_cases [of L sc])
  case (start_failed e)
  with assms show ?thesis by simp
next
  case (preamble_failed e tr0 rs)
  with assms have "ev \<in> set tr0 \<or> ev = Called PlaywrightStop rs" by auto
  with preamble_events [OF preamble_failed(3), of ev] show ?thesis by auto
next
  case (running r1 tr1 rs)
  with assms have "ev \<in> set tr1 \<or> ev = Called PlaywrightStop rs" by auto
  moreover have "ev \<in> set tr1 \<Longrightarrow> ev \<in> set (entry_trace sc L) \<or> stmt_of ev \<in> set (body sc)
     \<or> (\<exists>s. stmt_of ev = Print s)
     \<or> stmt_of ev = Await (Screenshot (error_path sc)) \<or> stmt_of ev = Await BrowserClose"
    using run_events [of ev sc L "entry_trace sc L"] running(3) by simp
  ultimately show ?thesis
    using preamble_events [OF running(2), of ev] by auto
qed

text \<open>
  Claim C10. Every visibility assertion of the lazy-loading script is made without a
  timeout argument: all four declared ones, and, for every behaviour of the library, every
  one issued in a run. The timeout in effect for each is therefore the default timeout
  \<open>d\<close> of the library. The two mobile scripts pass a timeout of 30000 ms to their
  visibility assertion, and 30 seconds is the timeout in effect there, whatever the
  default.
\<close>

theorem lazy_loading_default_timeouts:
  "visibility_timeouts (body verify_lazy_loading) = [None, None, None, None]
   \<and> (\<forall>t\<in>set (visibility_timeouts (body verify_lazy_loading)). effective_timeout d t = d)
   \<and> (\<forall>ev\<in>set (snd (main verify_lazy_loading L)).
         \<forall>q t r. ev = Called (ToBeVisible q t) r \<longrightarrow> t = None)
   \<and> visibility_timeouts (body verify_mobile_products) = [Some 30000]
   \<and> visibility_timeouts (body verify_mobile_home) = [Some 30000]
   \<and> (\<forall>t\<in>set (visibility_timeouts (body verify_mobile_products)
               @ visibility_timeouts (body verify_mobile_home)).
         effective_timeout d t = 30 * 1000)"
proof (intro conjI)
  show "\<forall>ev\<in>set (snd (main verify_lazy_loading L)).
         \<forall>q t r. ev = Called (ToBeVisible q t) r \<longrightarrow> t = None"
  proof (intro ballI allI impI)
    fix ev q t r
    assume "ev \<in> set (snd (main verify_lazy_loading L))" and ev: "ev = Called (ToBeVisible q t) r"
    from main_events [OF this(1)] ev
    have "Await (ToBeVisible q t) \<in> set (preamble verify_lazy_loading)
        \<or> Await (ToBeVisible q t) \<in> set (body verify_lazy_loading)"
      by auto
    then show "t = None"
      by (auto simp: verify_lazy_loading_def)
  qed
qed (simp_all add: verify_lazy_loading_def verify_mobile_products_def verify_mobile_home_def
      effective_timeout_def)

theorem lazy_loading_default_timeouts_witness:
  "Called (ToBeVisible (heading ''Capture Every Moment'') None)
       (Some (Exn AssertionError ''Locator expected to be visible''))
     \<in> set (snd (main verify_lazy_loading (spec_library slow_app)))
   \<and> effective_timeout (default_timeout slow_app) None = 5000
   \<and> Called (ToBeVisible (heading ''Capture Every Moment'') (Some 30000)) None
     \<in> set (snd (main verify_mobile_home (spec_library slow_app)))"
proof -
  have l: "main verify_lazy_loading (spec_library slow_app) =
     (None,
      [Called PlaywrightStart None, Called (Launch True) None, Called BrowserNewPage None,
       Called (Goto ''http://localhost:5173/'' 60000) None,
       Called (ToBeVisible (heading ''Capture Every Moment'') None)
         (Some (Exn AssertionError ''Locator expected to be visible'')),
       Printed (error_line (Exn AssertionError ''Locator expected to be visible'')),
       Called (Screenshot (error_path verify_lazy_loading)) None,
       Called BrowserClose None, Called PlaywrightStop None])"
    by (simp add: main_def run_def try_except_finally_def verify_lazy_loading_def
        spec_library_def slow_app_def handler_def finally_block_def except_Exception_def
        effective_timeout_def)
  have h: "main verify_mobile_home (spec_library slow_app) =
     (None,
      [Called PlaywrightStart None, Called (Launch True) None, Called iphone_x_context None,
       Called ContextNewPage None,
       Called (Goto ''http://localhost:5173/'' 60000) None,
       Called (ToBeVisible (heading ''Capture Every Moment'') (Some 30000)) None,
       Printed (check_mark @ '' Home page loaded successfully.''),
       Called (Screenshot ''jules-scratch/phase2_verification/mobile_home_analysis.png'') None,
       Printed (''Screenshot saved to jules-scratch/phase2_verification/mobile_home_analysis.png''),
       Called BrowserClose None, Called PlaywrightStop None])"
    by (simp add: main_def run_def try_except_finally_def verify_mobile_home_def
        spec_library_def slow_app_def handler_def finally_block_def except_Exception_def
        effective_timeout_def iphone_x_context_def)
  have d: "default_timeout slow_app = 5000" by (simp add: slow_app_def)
  from lazy_loading_default_timeouts [of "default_timeout slow_app" "spec_library slow_app"] d
  have "effective_timeout (default_timeout slow_app) None = 5000" by simp
  with l h show ?thesis by simp
qed

end
